theory Spec2Isabelle
  imports Complex_Main "HOL-Library.Word" "HOL-Library.Sublist"
begin

unbundle bit_operations_syntax

section \<open>Values and errors\<close>

text \<open>
  The service module, the one \<^verbatim>\<open>App.tsx\<close> imports as \<^verbatim>\<open>./services/geminiService\<close>, is
  embedded function by function. A JavaScript string is a \<^typ>\<open>string\<close>, a list of 8-bit
  characters: every character the functions below test for is ASCII, the binary string that
  \<^verbatim>\<open>atob\<close> returns has character codes 0 to 255 only, and a code unit above 255 would be
  one more character outside the base64 alphabet. A \<^verbatim>\<open>Uint8Array\<close> that owns its buffer is
  the list of its bytes, and a thrown exception is the \<open>Inl\<close> of a result. The functions are
  \<^verbatim>\<open>async\<close> where they await the remote call or the device; each awaits one thing at a
  time, so the model runs them in sequence.
\<close>

type_synonym u8 = "8 word"

datatype error =
    RangeError
  | InvalidCharacterError
  | NotSupportedError
  | IndexSizeError
  | Error string

definition then_do :: "error + 'a \<Rightarrow> ('a \<Rightarrow> error + 'b) \<Rightarrow> error + 'b" where
  "then_do r f = (case r of Inl e \<Rightarrow> Inl e | Inr x \<Rightarrow> f x)"

text \<open>
  A JavaScript number, as far as the module needs one: a finite value (the values that occur are
  quotients of small integers, exact in binary floating point), or one of the two non-finite
  results of a division by zero.
\<close>

datatype jsnum = Num rat | Infinity | NaN

text \<open>\<^verbatim>\<open>x / y\<close> on two non-negative integers.\<close>

definition js_divide :: "nat \<Rightarrow> nat \<Rightarrow> jsnum" where
  "js_divide x y =
     (if y = 0 then (if x = 0 then NaN else Infinity) else Num (of_nat x / of_nat y))"

section \<open>Base64 decoder\<close>

text \<open>
  \<^verbatim>\<open>atob\<close> is a function of the platform, not of the repository. It is the
  forgiving-base64 decode of the WHATWG Infra Standard, written here step by step:
  remove ASCII whitespace; if the length is a multiple of four remove one or two trailing
  \<^verbatim>\<open>=\<close>; fail if the length is 1 modulo 4; fail on a character outside the alphabet;
  collect six bits per character and emit three bytes for every 24 bits; at the end 12 bits give
  one byte and 18 bits give two, the spare low bits being dropped.
\<close>

definition ascii_whitespace :: "char \<Rightarrow> bool" where
  "ascii_whitespace c \<longleftrightarrow> c \<in> {CHR 0x09, CHR 0x0A, CHR 0x0C, CHR 0x0D, CHR 0x20}"

definition base64_alphabet :: string where
  "base64_alphabet = ''ABCDEFGHIJKLMNOPQRSTUVWXYZabcdefghijklmnopqrstuvwxyz0123456789+/''"

fun index_of :: "'a \<Rightarrow> 'a list \<Rightarrow> nat option" where
  "index_of x [] = None"
| "index_of x (y # ys) = (if x = y then Some 0 else map_option Suc (index_of x ys))"

definition base64_value :: "char \<Rightarrow> nat option" where
  "base64_value c = index_of c base64_alphabet"

definition remove_padding :: "string \<Rightarrow> string" where
  "remove_padding d =
     (if 2 \<le> length d \<and> last d = CHR ''='' \<and> last (butlast d) = CHR ''=''
      then butlast (butlast d)
      else if d \<noteq> [] \<and> last d = CHR ''='' then butlast d
      else d)"

fun base64_loop :: "nat list \<Rightarrow> nat \<Rightarrow> nat \<Rightarrow> string \<Rightarrow> string" where
  "base64_loop [] buffer bits output =
     (if bits = 12 then output @ [char_of (buffer div 16)]
      else if bits = 18 then output @ [char_of (buffer div 1024), char_of (buffer div 4)]
      else output)"
| "base64_loop (n # rest) buffer bits output =
     (let buffer' = buffer * 64 + n; bits' = bits + 6
      in if bits' = 24
         then base64_loop rest 0 0
                (output @ [char_of (buffer' div 65536), char_of (buffer' div 256), char_of buffer'])
         else base64_loop rest buffer' bits' output)"

definition forgiving_base64_decode :: "string \<Rightarrow> string option" where
  "forgiving_base64_decode d =
     (let d1 = filter (\<lambda>c. \<not> ascii_whitespace c) d;
          d2 = (if length d1 mod 4 = 0 then remove_padding d1 else d1)
      in if length d2 mod 4 = 1 then None
         else case those (map base64_value d2) of
                None \<Rightarrow> None
              | Some ns \<Rightarrow> Some (base64_loop ns 0 0 []))"

definition atob :: "string \<Rightarrow> error + string" where
  "atob d = (case forgiving_base64_decode d of None \<Rightarrow> Inl InvalidCharacterError | Some s \<Rightarrow> Inr s)"

text \<open>
  \<^verbatim>\<open>decode\<close>: the loop stores \<^verbatim>\<open>binaryString.charCodeAt(i)\<close> at index \<open>i\<close> of a fresh
  \<^verbatim>\<open>Uint8Array(len)\<close>, for every \<open>i\<close> below \<open>len\<close>; an exception of \<^verbatim>\<open>atob\<close> is not
  caught.
\<close>

definition charCode :: "char \<Rightarrow> nat" where
  "charCode c = of_char c"

definition decode :: "string \<Rightarrow> error + u8 list" where
  "decode base64 =
     then_do (atob base64) (\<lambda>binaryString. Inr (map (\<lambda>c. of_nat (charCode c)) binaryString))"

section \<open>PCM interpreter\<close>

text \<open>
  \<^verbatim>\<open>new Int16Array(data.buffer)\<close> is a view of the whole buffer, two bytes per element in
  the byte order of the platform (little-endian on every platform a browser runs on). The
  constructor throws a \<^verbatim>\<open>RangeError\<close> when the byte length of the buffer is not a
  multiple of the element size.
\<close>

fun int16_elements :: "u8 list \<Rightarrow> 16 word list" where
  "int16_elements (lo # hi # rest) = word_cat hi lo # int16_elements rest"
| "int16_elements _ = []"

definition Int16Array :: "u8 list \<Rightarrow> error + 16 word list" where
  "Int16Array buffer =
     (if length buffer mod 2 \<noteq> 0 then Inl RangeError else Inr (int16_elements buffer))"

text \<open>
  The audio context is the caller's device handle. What it accepts in \<^verbatim>\<open>createBuffer\<close>
  (channel counts, lengths, sample rates) is the device's own rule and a field of the handle.
  The handle also carries the state that \<^verbatim>\<open>resume\<close> changes and the buffers whose source
  node has been connected to the destination and started.
\<close>

record audio_buffer =
  numberOfChannels :: nat
  frames :: nat
  sampleRate :: nat
  channels :: "jsnum list list"

datatype context_state = Suspended | Running | Closed

record audio_context =
  state :: context_state
  supported :: "nat \<Rightarrow> nat \<Rightarrow> nat \<Rightarrow> bool"
  started :: "audio_buffer list"

text \<open>
  The conversion of an argument to a Web IDL \<^verbatim>\<open>unsigned long\<close>: a non-finite number becomes
  0, a finite one is truncated and reduced modulo \<open>2^32\<close> (the numbers here are not negative).
\<close>

definition to_unsigned_long :: "jsnum \<Rightarrow> nat" where
  "to_unsigned_long x = (case x of Num q \<Rightarrow> nat \<lfloor>q\<rfloor> mod 2 ^ 32 | Infinity \<Rightarrow> 0 | NaN \<Rightarrow> 0)"

definition silence :: "nat \<Rightarrow> nat \<Rightarrow> nat \<Rightarrow> audio_buffer" where
  "silence n len rate =
     \<lparr>numberOfChannels = n, frames = len, sampleRate = rate,
      channels = replicate n (replicate len (Num 0))\<rparr>"

definition createBuffer :: "audio_context \<Rightarrow> nat \<Rightarrow> jsnum \<Rightarrow> nat \<Rightarrow> error + audio_buffer" where
  "createBuffer ctx numChannels len rate =
     (let n = to_unsigned_long (Num (of_nat numChannels)); l = to_unsigned_long len
      in if supported ctx n l rate then Inr (silence n l rate) else Inl NotSupportedError)"

definition getChannelData :: "audio_buffer \<Rightarrow> nat \<Rightarrow> error + jsnum list" where
  "getChannelData buffer channel =
     (if channel < numberOfChannels buffer then Inr (channels buffer ! channel)
      else Inl IndexSizeError)"

text \<open>
  \<^verbatim>\<open>dataInt16[k] / 32768.0\<close>: a read past the end of a typed array is \<^verbatim>\<open>undefined\<close>, and
  \<^verbatim>\<open>undefined / 32768.0\<close> is \<^verbatim>\<open>NaN\<close>. The quotient of a 16-bit integer by \<open>2^15\<close> is
  exact in single as in double precision, so storing it in a \<^verbatim>\<open>Float32Array\<close> does not
  round.
\<close>

definition sample_at :: "16 word list \<Rightarrow> nat \<Rightarrow> jsnum" where
  "sample_at dataInt16 k =
     (if k < length dataInt16 then Num (of_int (sint (dataInt16 ! k)) / 32768) else NaN)"

text \<open>
  The number of iterations of \<^verbatim>\<open>for (let i = 0; i < frameCount; i++)\<close>. The bound is
  infinite only when \<open>numChannels\<close> is 0, and then the loop over the channels has no
  iteration and this loop is never entered.
\<close>

definition iterations :: "jsnum \<Rightarrow> nat" where
  "iterations frameCount = (case frameCount of Num q \<Rightarrow> nat \<lceil>q\<rceil> | Infinity \<Rightarrow> 0 | NaN \<Rightarrow> 0)"

text \<open>
  The inner loop. A write past the end of a typed array is ignored, as \<open>xs[i := v]\<close> is in
  HOL.
\<close>

definition frame_loop :: "16 word list \<Rightarrow> nat \<Rightarrow> nat \<Rightarrow> jsnum \<Rightarrow> jsnum list \<Rightarrow> jsnum list" where
  "frame_loop dataInt16 numChannels channel frameCount channelData =
     fold (\<lambda>i cd. cd[i := sample_at dataInt16 (i * numChannels + channel)])
       [0..<iterations frameCount] channelData"

text \<open>
  The outer loop, over the channels still to do. \<^verbatim>\<open>getChannelData\<close> returns a live view:
  the writes of the inner loop are writes to the buffer.
\<close>

primrec channel_loop ::
  "nat list \<Rightarrow> 16 word list \<Rightarrow> nat \<Rightarrow> jsnum \<Rightarrow> audio_buffer \<Rightarrow> error + audio_buffer" where
  "channel_loop [] dataInt16 numChannels frameCount buffer = Inr buffer"
| "channel_loop (channel # rest) dataInt16 numChannels frameCount buffer =
     then_do (getChannelData buffer channel) (\<lambda>channelData.
       channel_loop rest dataInt16 numChannels frameCount
         (buffer\<lparr>channels := (channels buffer)
            [channel := frame_loop dataInt16 numChannels channel frameCount channelData]\<rparr>))"

definition decodeAudioData ::
  "u8 list \<Rightarrow> audio_context \<Rightarrow> nat \<Rightarrow> nat \<Rightarrow> error + audio_buffer" where
  "decodeAudioData data ctx rate numChannels =
     then_do (Int16Array data) (\<lambda>dataInt16.
       let frameCount = js_divide (length dataInt16) numChannels
       in then_do (createBuffer ctx numChannels frameCount rate) (\<lambda>buffer.
            channel_loop [0..<numChannels] dataInt16 numChannels frameCount buffer))"

section \<open>Speech request\<close>

text \<open>
  The response of the remote call, with the fields the function reads. \<open>response_text\<close> is the
  \<^verbatim>\<open>text\<close> accessor of the client library.
\<close>

record inline_data =
  inline_base64 :: "string option"

record part =
  inlineData :: "inline_data option"

record content =
  parts :: "part list option"

record candidate =
  candidate_content :: "content option"

record prompt_feedback =
  blockReason :: "string option"

record response =
  candidates :: "candidate list option"
  response_text :: "string option"
  promptFeedback :: "prompt_feedback option"

record request =
  apiKey :: string
  model :: string
  contents :: string
  voice :: string

text \<open>\<^verbatim>\<open>xs?.[0]\<close> on an array that is present: \<^verbatim>\<open>undefined\<close> when it is empty.\<close>

definition first :: "'a list \<Rightarrow> 'a option" where
  "first xs = (case xs of [] \<Rightarrow> None | x # _ \<Rightarrow> Some x)"

text \<open>\<^verbatim>\<open>response.candidates?.[0]?.content?.parts?.[0]?.inlineData?.data\<close>\<close>

definition inline_audio :: "response \<Rightarrow> string option" where
  "inline_audio r =
     Option.bind (candidates r) (\<lambda>cs.
     Option.bind (first cs) (\<lambda>c.
     Option.bind (candidate_content c) (\<lambda>ct.
     Option.bind (parts ct) (\<lambda>ps.
     Option.bind (first ps) (\<lambda>p.
     Option.bind (inlineData p) inline_base64)))))"

text \<open>A string that may be \<^verbatim>\<open>undefined\<close> is truthy when it is present and not empty.\<close>

definition truthy :: "string option \<Rightarrow> bool" where
  "truthy v = (case v of None \<Rightarrow> False | Some s \<Rightarrow> s \<noteq> [])"

text \<open>
  The request: the client is built with the key, the prompt is \<^verbatim>\<open>`Say: ${text}`\<close>, the
  only response modality is audio and the voice is the prebuilt voice named.
\<close>

definition speech_request :: "string \<Rightarrow> string \<Rightarrow> string \<Rightarrow> request" where
  "speech_request key text voiceName =
     \<lparr>apiKey = key, model = ''gemini-2.5-flash-preview-tts'',
      contents = ''Say: '' @ text, voice = voiceName\<rparr>"

text \<open>
  \<^verbatim>\<open>generateSpeech\<close> takes the environment variable and the remote service (what
  \<^verbatim>\<open>generateContent\<close> answers or throws for a request) as arguments, and returns the
  requests it has sent next to its result.
\<close>

definition generateSpeech ::
  "string option \<Rightarrow> (request \<Rightarrow> error + response) \<Rightarrow> string \<Rightarrow> string
     \<Rightarrow> request list \<times> (error + string)" where
  "generateSpeech API_KEY generateContent text voiceName =
     (if \<not> truthy API_KEY then ([], Inl (Error ''API_KEY environment variable not set''))
      else
        let req = speech_request (the API_KEY) text voiceName
        in (case generateContent req of
              Inl e \<Rightarrow> ([req], Inl e)
            | Inr response \<Rightarrow>
                ([req],
                 let base64Audio = inline_audio response
                 in if \<not> truthy base64Audio then
                      (let errorText = response_text response;
                           reason = Option.bind (promptFeedback response) blockReason
                       in if truthy errorText
                          then Inl (Error (''API returned text instead of audio: '' @ the errorText))
                          else if truthy reason
                          then Inl (Error (''Request was blocked: '' @ the reason))
                          else Inl (Error ''No audio data received from API. The response was empty or malformed.''))
                    else Inr (the base64Audio))))"

section \<open>Playback\<close>

text \<open>
  \<^verbatim>\<open>playAudio\<close> returns the handle as it leaves it next to its result. \<^verbatim>\<open>resume\<close> puts a
  suspended context in the running state; connecting the source node and starting it appends
  the buffer to \<open>started\<close>.
\<close>

definition resume :: "audio_context \<Rightarrow> audio_context" where
  "resume ctx = ctx\<lparr>state := Running\<rparr>"

definition start_source :: "audio_context \<Rightarrow> audio_buffer \<Rightarrow> audio_context" where
  "start_source ctx audioBuffer = ctx\<lparr>started := started ctx @ [audioBuffer]\<rparr>"

definition playAudio ::
  "string \<Rightarrow> audio_context option \<Rightarrow> audio_context option \<times> (error + unit)" where
  "playAudio base64Audio audioContext =
     (case audioContext of
        None \<Rightarrow> (None, Inl (Error ''AudioContext not initialized.''))
      | Some ctx0 \<Rightarrow>
          let ctx = (if state ctx0 = Suspended then resume ctx0 else ctx0)
          in (case decode base64Audio of
                Inl e \<Rightarrow> (Some ctx, Inl e)
              | Inr decodedBytes \<Rightarrow>
                  (case decodeAudioData decodedBytes ctx 24000 1 of
                     Inl e \<Rightarrow> (Some ctx, Inl e)
                   | Inr audioBuffer \<Rightarrow> (Some (start_source ctx audioBuffer), Inr Unity))))"

section \<open>WAV encoder\<close>

text \<open>
  A \<^verbatim>\<open>DataView\<close> over a whole \<^verbatim>\<open>ArrayBuffer\<close> is the list of the buffer's bytes. Every
  setter converts its value to the unsigned integer type of its width (the value modulo
  \<open>2^8\<close>, \<open>2^16\<close> or \<open>2^32\<close>) and throws a \<^verbatim>\<open>RangeError\<close> when the bytes would end past the
  view.
\<close>

definition ArrayBuffer :: "nat \<Rightarrow> u8 list" where
  "ArrayBuffer n = replicate n 0"

definition SetViewValue :: "u8 list \<Rightarrow> nat \<Rightarrow> u8 list \<Rightarrow> error + u8 list" where
  "SetViewValue view byteOffset bs =
     (if byteOffset + length bs > length view then Inl RangeError
      else Inr (take byteOffset view @ bs @ drop (byteOffset + length bs) view))"

definition setUint8 :: "u8 list \<Rightarrow> nat \<Rightarrow> nat \<Rightarrow> error + u8 list" where
  "setUint8 view byteOffset v = SetViewValue view byteOffset [of_nat v]"

definition setUint16 :: "u8 list \<Rightarrow> nat \<Rightarrow> nat \<Rightarrow> bool \<Rightarrow> error + u8 list" where
  "setUint16 view byteOffset v littleEndian =
     (let bs = [of_nat v, of_nat (v div 256)]
      in SetViewValue view byteOffset (if littleEndian then bs else rev bs))"

definition setUint32 :: "u8 list \<Rightarrow> nat \<Rightarrow> nat \<Rightarrow> bool \<Rightarrow> error + u8 list" where
  "setUint32 view byteOffset v littleEndian =
     (let bs = [of_nat v, of_nat (v div 256), of_nat (v div 65536), of_nat (v div 16777216)]
      in SetViewValue view byteOffset (if littleEndian then bs else rev bs))"

primrec writeString :: "u8 list \<Rightarrow> nat \<Rightarrow> string \<Rightarrow> error + u8 list" where
  "writeString view offset [] = Inr view"
| "writeString view offset (c # cs) =
     then_do (setUint8 view offset (charCode c)) (\<lambda>view'. writeString view' (Suc offset) cs)"

record blob =
  blobBytes :: "u8 list"
  blobType :: string

definition createWavBlob :: "u8 list \<Rightarrow> error + blob" where
  "createWavBlob pcmData =
     (let rate = (24000::nat);
          numChannels = (1::nat);
          bitsPerSample = (16::nat);
          dataSize = length pcmData;
          buffer = ArrayBuffer 44
      in
      then_do (writeString buffer 0 ''RIFF'') (\<lambda>view.
      then_do (setUint32 view 4 (36 + dataSize) True) (\<lambda>view.
      then_do (writeString view 8 ''WAVE'') (\<lambda>view.
      then_do (writeString view 12 ''fmt '') (\<lambda>view.
      then_do (setUint32 view 16 16 True) (\<lambda>view.
      then_do (setUint16 view 20 1 True) (\<lambda>view.
      then_do (setUint16 view 22 numChannels True) (\<lambda>view.
      then_do (setUint32 view 24 rate True) (\<lambda>view.
      then_do (setUint32 view 28 (rate * numChannels * (bitsPerSample div 8)) True) (\<lambda>view.
      then_do (setUint16 view 32 (numChannels * (bitsPerSample div 8)) True) (\<lambda>view.
      then_do (setUint16 view 34 bitsPerSample True) (\<lambda>view.
      then_do (writeString view 36 ''data'') (\<lambda>view.
      then_do (setUint32 view 40 dataSize True) (\<lambda>view.
      Inr \<lparr>blobBytes = view @ pcmData, blobType = ''audio/wav''\<rparr>))))))))))))))"

definition createWavBlobFromBase64 :: "string \<Rightarrow> error + blob" where
  "createWavBlobFromBase64 base64Audio = then_do (decode base64Audio) createWavBlob"

section \<open>Reference notions of the specification\<close>

text \<open>
  The definitions of this section are not code of the module. They are the notions the
  specification states its properties with: the little-endian reading of a field, the standard
  encoder of RFC 4648, the syntax of padded base64, and an example device.
\<close>

definition ascii :: "string \<Rightarrow> u8 list" where
  "ascii s = map (\<lambda>c. of_nat (charCode c)) s"

definition uint16_le_at :: "u8 list \<Rightarrow> nat \<Rightarrow> nat" where
  "uint16_le_at bs k = unat (bs ! k) + 256 * unat (bs ! (k + 1))"

definition uint32_le_at :: "u8 list \<Rightarrow> nat \<Rightarrow> nat" where
  "uint32_le_at bs k =
     unat (bs ! k) + 256 * unat (bs ! (k + 1)) + 65536 * unat (bs ! (k + 2))
     + 16777216 * unat (bs ! (k + 3))"

definition uint16_le :: "nat \<Rightarrow> u8 list" where
  "uint16_le v = [of_nat v, of_nat (v div 256)]"

definition uint32_le :: "nat \<Rightarrow> u8 list" where
  "uint32_le v = [of_nat v, of_nat (v div 256), of_nat (v div 65536), of_nat (v div 16777216)]"

text \<open>The canonical 44-byte header of 16-bit mono PCM at 24000 Hz, field after field.\<close>

definition wav_header :: "nat \<Rightarrow> u8 list" where
  "wav_header dataSize =
     ascii ''RIFF'' @ uint32_le (36 + dataSize) @ ascii ''WAVE''
     @ ascii ''fmt '' @ uint32_le 16 @ uint16_le 1 @ uint16_le 1 @ uint32_le 24000
     @ uint32_le 48000 @ uint16_le 2 @ uint16_le 16
     @ ascii ''data'' @ uint32_le dataSize"

text \<open>The \<open>k\<close>-th little-endian signed 16-bit integer of a byte buffer.\<close>

definition int16_le :: "u8 list \<Rightarrow> nat \<Rightarrow> int" where
  "int16_le bs k = sint (word_cat (bs ! (2 * k + 1)) (bs ! (2 * k)) :: 16 word)"

text \<open>
  RFC 4648, section 4: three bytes give four characters of the alphabet; a last group of one
  or two bytes gives two or three characters, padded with \<^verbatim>\<open>=\<close> to four.
\<close>

definition base64_char :: "nat \<Rightarrow> char" where
  "base64_char n = base64_alphabet ! n"

fun sextets :: "u8 list \<Rightarrow> nat list" where
  "sextets [] = []"
| "sextets [a] = [unat a div 4, unat a mod 4 * 16]"
| "sextets [a, b] = [unat a div 4, unat a mod 4 * 16 + unat b div 16, unat b mod 16 * 4]"
| "sextets (a # b # c # rest) =
     [unat a div 4, unat a mod 4 * 16 + unat b div 16, unat b mod 16 * 4 + unat c div 64,
      unat c mod 64] @ sextets rest"

definition base64Encode :: "u8 list \<Rightarrow> string" where
  "base64Encode x =
     map base64_char (sextets x) @ replicate ((3 - length x mod 3) mod 3) (CHR ''='')"

text \<open>
  Padded base64: the length is a multiple of four, at most two \<^verbatim>\<open>=\<close> end the string and
  every character before them is in the alphabet. Such a string stands for three bytes per
  group of four characters, less one byte per padding character.
\<close>

definition pad_count :: "string \<Rightarrow> nat" where
  "pad_count s = length (takeWhile (\<lambda>c. c = CHR ''='') (rev s))"

definition valid_base64 :: "string \<Rightarrow> bool" where
  "valid_base64 s \<longleftrightarrow>
     length s mod 4 = 0 \<and> pad_count s \<le> 2 \<and>
     list_all (\<lambda>c. base64_value c \<noteq> None) (take (length s - pad_count s) s)"

definition decoded_byte_count :: "string \<Rightarrow> nat" where
  "decoded_byte_count s = 3 * (length s div 4) - pad_count s"

text \<open>
  The two liberties the platform's decoder takes: ASCII whitespace is skipped, and a string
  without any \<^verbatim>\<open>=\<close> may leave its padding out.
\<close>

definition supply_padding :: "string \<Rightarrow> string" where
  "supply_padding s =
     (if CHR ''='' \<in> set s then s
      else s @ replicate ((4 - length s mod 4) mod 4) (CHR ''=''))"

definition normal_form :: "string \<Rightarrow> string" where
  "normal_form s = supply_padding (filter (\<lambda>c. \<not> ascii_whitespace c) s)"

text \<open>
  A device with the ranges every implementation of the Web Audio API has to support: 1 to 32
  channels, at least one frame, 8000 to 96000 Hz.
\<close>

definition exampleContext :: audio_context where
  "exampleContext =
     \<lparr>state = Running,
      supported = (\<lambda>n len rate. 1 \<le> n \<and> n \<le> 32 \<and> 1 \<le> len \<and> 8000 \<le> rate \<and> rate \<le> 96000),
      started = []\<rparr>"


text \<open>
  A response whose first part is text and whose prompt feedback names a block reason.
\<close>

definition refusal :: response where
  "refusal =
     \<lparr>candidates = Some [\<lparr>candidate_content = Some \<lparr>parts = Some [\<lparr>inlineData = None\<rparr>]\<rparr>\<rparr>],
      response_text = Some ''Sorry'',
      promptFeedback = Some \<lparr>blockReason = Some ''SAFETY''\<rparr>\<rparr>"

definition blocked :: response where
  "blocked =
     \<lparr>candidates = None, response_text = None,
      promptFeedback = Some \<lparr>blockReason = Some ''SAFETY''\<rparr>\<rparr>"

section \<open>Properties of the WAV encoder, of playback and of the speech request\<close>

lemma ArrayBuffer_44:
  "ArrayBuffer 44 = [0,0,0,0,0,0,0,0,0,0,0, 0,0,0,0,0,0,0,0,0,0,0, 0,0,0,0,0,0,0,0,0,0,0, 0,0,0,0,0,0,0,0,0,0,0]"
  by (simp add: ArrayBuffer_def numeral_eq_Suc)

lemma createWavBlob_bytes:
  "createWavBlob pcm = Inr \<lparr>blobBytes = wav_header (length pcm) @ pcm, blobType = ''audio/wav''\<rparr>"
  by (simp add: createWavBlob_def ArrayBuffer_44 then_do_def setUint8_def setUint16_def setUint32_def
      SetViewValue_def wav_header_def ascii_def uint32_le_def uint16_le_def Let_def charCode_def)

lemma length_wav_header: "length (wav_header n) = 44"
  by (simp add: wav_header_def ascii_def uint32_le_def uint16_le_def)

lemma u16_split: "(v::nat) mod 65536 = v mod 256 + 256 * (v div 256 mod 256)"
  using mod_mult2_eq [of v 256 256] by simp

lemma u32_split:
  "(v::nat) mod 4294967296 =
     v mod 256 + 256 * (v div 256 mod 256) + 65536 * (v div 65536 mod 256)
     + 16777216 * (v div 16777216 mod 256)"
proof -
  have a: "v mod 4294967296 = v mod 65536 + 65536 * (v div 65536 mod 65536)"
    using mod_mult2_eq [of v 65536 65536] by simp
  have b: "v div 65536 mod 65536 = v div 65536 mod 256 + 256 * (v div 65536 div 256 mod 256)"
    by (rule u16_split)
  have c: "v div 65536 div 256 = v div 16777216"
    by (simp add: div_mult2_eq [symmetric])
  show ?thesis
    by (simp add: a b c u16_split)
qed

lemma uint32_le_at_append:
  "length pre = k \<Longrightarrow> uint32_le_at (pre @ uint32_le v @ post) k = v mod 2 ^ 32"
  by (simp add: uint32_le_at_def uint32_le_def nth_append unat_of_nat take_bit_eq_mod u32_split)

lemma uint16_le_at_append:
  "length pre = k \<Longrightarrow> uint16_le_at (pre @ uint16_le v @ post) k = v mod 2 ^ 16"
  by (simp add: uint16_le_at_def uint16_le_def nth_append unat_of_nat take_bit_eq_mod u16_split)

text \<open>
  Claim C1. For every PCM byte buffer, \<^verbatim>\<open>createWavBlob\<close> returns a blob (it never raises) whose
  bytes from offset 44 on are exactly the buffer, 44 plus the buffer's length in all, typed
  \<^verbatim>\<open>audio/wav\<close>.
\<close>

theorem createWavBlob_payload:
  "\<exists>b. createWavBlob pcmData = Inr b \<and> drop 44 (blobBytes b) = pcmData \<and>
       length (blobBytes b) = 44 + length pcmData \<and> blobType b = ''audio/wav''"
  by (simp add: createWavBlob_bytes length_wav_header)

theorem createWavBlob_payload_witness:
  "case createWavBlob [1, 2, 3] of
     Inl e \<Rightarrow> False
   | Inr b \<Rightarrow> drop 44 (blobBytes b) = [1, 2, 3] \<and> length (blobBytes b) = 47"
proof -
  from createWavBlob_payload [of "[1, 2, 3]"]
  obtain b where "createWavBlob [1, 2, 3] = Inr b" "drop 44 (blobBytes b) = [1, 2, 3]"
    "length (blobBytes b) = 44 + length [1, 2, 3 :: u8]"
    by blast
  then show ?thesis by simp
qed

lemma wav_header_fields:
  "take 4 (wav_header n) = ascii ''RIFF''"
  "uint32_le_at (wav_header n) 4 = (36 + n) mod 2 ^ 32"
  "take 4 (drop 8 (wav_header n)) = ascii ''WAVE''"
  "take 4 (drop 12 (wav_header n)) = ascii ''fmt ''"
  "uint32_le_at (wav_header n) 16 = 16"
  "uint16_le_at (wav_header n) 20 = 1"
  "uint16_le_at (wav_header n) 22 = 1"
  "uint32_le_at (wav_header n) 24 = 24000"
  "uint32_le_at (wav_header n) 28 = 48000"
  "uint16_le_at (wav_header n) 32 = 2"
  "uint16_le_at (wav_header n) 34 = 16"
  "take 4 (drop 36 (wav_header n)) = ascii ''data''"
  "uint32_le_at (wav_header n) 40 = n mod 2 ^ 32"
proof -
  show "take 4 (wav_header n) = ascii ''RIFF''"
    "take 4 (drop 8 (wav_header n)) = ascii ''WAVE''"
    "take 4 (drop 12 (wav_header n)) = ascii ''fmt ''"
    "take 4 (drop 36 (wav_header n)) = ascii ''data''"
    by (simp_all add: wav_header_def ascii_def uint32_le_def uint16_le_def)
  show "uint32_le_at (wav_header n) 4 = (36 + n) mod 2 ^ 32"
    using uint32_le_at_append [of "ascii ''RIFF''" 4 "36 + n"]
    by (simp add: wav_header_def ascii_def)
  show "uint32_le_at (wav_header n) 40 = n mod 2 ^ 32"
    using uint32_le_at_append [of "take 40 (wav_header n)" 40 n "[]"]
    by (simp add: wav_header_def ascii_def uint32_le_def uint16_le_def)
  show "uint32_le_at (wav_header n) 16 = 16"
    "uint16_le_at (wav_header n) 20 = 1"
    "uint16_le_at (wav_header n) 22 = 1"
    "uint32_le_at (wav_header n) 24 = 24000"
    "uint32_le_at (wav_header n) 28 = 48000"
    "uint16_le_at (wav_header n) 32 = 2"
    "uint16_le_at (wav_header n) 34 = 16"
    by (simp_all add: wav_header_def ascii_def uint32_le_def uint16_le_def uint32_le_at_def uint16_le_at_def)
qed

text \<open>
  Claim C2. For every buffer whose RIFF size \<open>36 + dataSize\<close> fits the 32-bit field, the 44
  bytes that \<^verbatim>\<open>createWavBlob\<close> puts before the data read: \<^verbatim>\<open>RIFF\<close>, little-endian
  \<open>36 + dataSize\<close>, \<^verbatim>\<open>WAVE\<close>, \<^verbatim>\<open>fmt \<close>, 16, format tag 1, 1 channel, 24000 Hz, byte rate
  48000, block align 2, 16 bits per sample, \<^verbatim>\<open>data\<close>, and \<open>dataSize\<close>.
\<close>

theorem createWavBlob_header:
  assumes "36 + length pcmData < 2 ^ 32"
  shows "\<exists>header. length header = 44 \<and>
     createWavBlob pcmData = Inr \<lparr>blobBytes = header @ pcmData, blobType = ''audio/wav''\<rparr> \<and>
     take 4 header = ascii ''RIFF'' \<and>
     uint32_le_at header 4 = 36 + length pcmData \<and>
     take 4 (drop 8 header) = ascii ''WAVE'' \<and>
     take 4 (drop 12 header) = ascii ''fmt '' \<and>
     uint32_le_at header 16 = 16 \<and>
     uint16_le_at header 20 = 1 \<and>
     uint16_le_at header 22 = 1 \<and>
     uint32_le_at header 24 = 24000 \<and>
     uint32_le_at header 28 = 48000 \<and>
     uint16_le_at header 32 = 2 \<and>
     uint16_le_at header 34 = 16 \<and>
     take 4 (drop 36 header) = ascii ''data'' \<and>
     uint32_le_at header 40 = length pcmData"
proof -
  from assms have "(36 + length pcmData) mod 2 ^ 32 = 36 + length pcmData"
    and "length pcmData mod 2 ^ 32 = length pcmData"
    by simp_all
  then show ?thesis
    by (intro exI [of _ "wav_header (length pcmData)"])
      (simp only: wav_header_fields length_wav_header createWavBlob_bytes simp_thms)
qed

theorem createWavBlob_header_witness:
  "(case createWavBlob [] of
      Inl e \<Rightarrow> False
    | Inr b \<Rightarrow> uint32_le_at (blobBytes b) 4 = 36 \<and> uint32_le_at (blobBytes b) 40 = 0) \<and>
   (case createWavBlob [1, 2, 3, 4, 5, 6, 7, 8, 9, 10] of
      Inl e \<Rightarrow> False
    | Inr b \<Rightarrow> uint32_le_at (blobBytes b) 4 = 46 \<and> uint32_le_at (blobBytes b) 40 = 10)"
proof -
  have h0: "36 + length ([] :: u8 list) < 2 ^ 32"
    and h10: "36 + length [1, 2, 3, 4, 5, 6, 7, 8, 9, 10 :: u8] < 2 ^ 32"
    by simp_all
  from createWavBlob_header [OF h0] obtain header0 where
    "length header0 = 44" "createWavBlob [] = Inr \<lparr>blobBytes = header0 @ [], blobType = ''audio/wav''\<rparr>"
    "uint32_le_at header0 4 = 36 + length ([] :: u8 list)" "uint32_le_at header0 40 = length ([] :: u8 list)"
    by blast
  moreover from createWavBlob_header [OF h10] obtain header10 where
    "length header10 = 44"
    "createWavBlob [1, 2, 3, 4, 5, 6, 7, 8, 9, 10] =
       Inr \<lparr>blobBytes = header10 @ [1, 2, 3, 4, 5, 6, 7, 8, 9, 10], blobType = ''audio/wav''\<rparr>"
    "uint32_le_at header10 4 = 36 + length [1, 2, 3, 4, 5, 6, 7, 8, 9, 10 :: u8]"
    "uint32_le_at header10 40 = length [1, 2, 3, 4, 5, 6, 7, 8, 9, 10 :: u8]"
    by blast
  ultimately show ?thesis
    by (simp add: uint32_le_at_def nth_append)
qed

text \<open>
  Claim C8. Without an audio context, \<^verbatim>\<open>playAudio\<close> fails with the error
  \<^verbatim>\<open>AudioContext not initialized.\<close> for every input, also one that \<^verbatim>\<open>decode\<close> would reject:
  nothing is decoded and there is no context in which anything could be scheduled.
\<close>

theorem playAudio_without_context:
  "playAudio base64Audio None = (None, Inl (Error ''AudioContext not initialized.''))"
  by (simp add: playAudio_def)

theorem playAudio_without_context_witness:
  "decode ''?'' = Inl InvalidCharacterError \<and>
   playAudio ''?'' None = (None, Inl (Error ''AudioContext not initialized.''))"
  using playAudio_without_context [of "''?''"]
  by (simp add: decode_def atob_def forgiving_base64_decode_def ascii_whitespace_def then_do_def)

text \<open>
  Claim C10. When the environment variable \<^verbatim>\<open>API_KEY\<close> is not set, \<^verbatim>\<open>generateSpeech\<close> fails
  with the error \<^verbatim>\<open>API_KEY environment variable not set\<close> for every text, voice and remote
  service, and no request has been sent.
\<close>

theorem generateSpeech_without_key:
  "generateSpeech None generateContent text voiceName =
     ([], Inl (Error ''API_KEY environment variable not set''))"
  by (simp add: generateSpeech_def truthy_def)

theorem generateSpeech_without_key_witness:
  "generateSpeech None (\<lambda>req. Inr blocked) ''Hello'' ''Kore'' =
     ([], Inl (Error ''API_KEY environment variable not set'')) \<and>
   generateSpeech None (\<lambda>req. Inl (Error ''offline'')) ''Hello'' ''Kore'' =
     ([], Inl (Error ''API_KEY environment variable not set''))"
  using generateSpeech_without_key [of "\<lambda>req. Inr blocked" "''Hello''" "''Kore''"]
    generateSpeech_without_key [of "\<lambda>req. Inl (Error ''offline'')" "''Hello''" "''Kore''"]
  by simp

text \<open>
  A response with no inline audio, a block reason and text: the error is the text error, and
  the reason is nowhere in its message.
\<close>

theorem generateSpeech_text_first_counterexample:
  "\<not> truthy (inline_audio refusal) \<and>
   Option.bind (promptFeedback refusal) blockReason = Some ''SAFETY'' \<and>
   snd (generateSpeech (Some ''key'') (\<lambda>req. Inr refusal) ''Hello'' ''Kore'') =
     Inl (Error ''API returned text instead of audio: Sorry'') \<and>
   \<not> sublist ''SAFETY'' ''API returned text instead of audio: Sorry''"
  apply (simp add: generateSpeech_def refusal_def truthy_def inline_audio_def first_def)
  apply code_simp
  done

text \<open>
  Claim C9, amended. With the key set: an error of the remote call is passed on unchanged; a
  response without inline audio that carries text gives the error
  \<^verbatim>\<open>API returned text instead of audio: \<close> followed by the text, block reason or not; one
  without inline audio and without text, whose prompt feedback names a block reason, gives the
  error \<^verbatim>\<open>Request was blocked: \<close> followed by the reason; one without inline audio, text and
  block reason gives the error \<^verbatim>\<open>No audio data received from API. ...\<close>; and the three
  messages differ from one another whatever the text and the reason are.
\<close>

theorem generateSpeech_failures:
  assumes "truthy API_KEY"
  shows
    "(generateContent (speech_request (the API_KEY) text voiceName) = Inl e \<longrightarrow>
        snd (generateSpeech API_KEY generateContent text voiceName) = Inl e) \<and>
     (generateContent (speech_request (the API_KEY) text voiceName) = Inr r \<and>
        \<not> truthy (inline_audio r) \<and> response_text r = Some errorText \<and> errorText \<noteq> [] \<longrightarrow>
        snd (generateSpeech API_KEY generateContent text voiceName) =
          Inl (Error (''API returned text instead of audio: '' @ errorText))) \<and>
     (generateContent (speech_request (the API_KEY) text voiceName) = Inr r \<and>
        \<not> truthy (inline_audio r) \<and> \<not> truthy (response_text r) \<and>
        Option.bind (promptFeedback r) blockReason = Some reason \<and> reason \<noteq> [] \<longrightarrow>
        snd (generateSpeech API_KEY generateContent text voiceName) =
          Inl (Error (''Request was blocked: '' @ reason)) \<and>
        sublist reason (''Request was blocked: '' @ reason)) \<and>
     (generateContent (speech_request (the API_KEY) text voiceName) = Inr r \<and>
        \<not> truthy (inline_audio r) \<and> \<not> truthy (response_text r) \<and>
        \<not> truthy (Option.bind (promptFeedback r) blockReason) \<longrightarrow>
        snd (generateSpeech API_KEY generateContent text voiceName) =
          Inl (Error ''No audio data received from API. The response was empty or malformed.'')) \<and>
     ''Request was blocked: '' @ reason \<noteq>
       ''No audio data received from API. The response was empty or malformed.'' \<and>
     ''API returned text instead of audio: '' @ errorText \<noteq> ''Request was blocked: '' @ reason \<and>
     ''API returned text instead of audio: '' @ errorText \<noteq>
       ''No audio data received from API. The response was empty or malformed.''"
proof -
  have "sublist reason (''Request was blocked: '' @ reason)"
    by (rule suffix_imp_sublist) (rule suffixI, rule refl)
  moreover have "''Request was blocked: '' @ reason \<noteq>
       ''No audio data received from API. The response was empty or malformed.''"
    "''API returned text instead of audio: '' @ errorText \<noteq> ''Request was blocked: '' @ reason"
    "''API returned text instead of audio: '' @ errorText \<noteq>
       ''No audio data received from API. The response was empty or malformed.''"
    by simp_all
  ultimately show ?thesis
    using assms by (auto simp: generateSpeech_def truthy_def Let_def simp del: append.simps)
qed

theorem generateSpeech_failures_witness:
  "snd (generateSpeech (Some ''key'') (\<lambda>req. Inr blocked) ''Hello'' ''Kore'') =
     Inl (Error ''Request was blocked: SAFETY'') \<and>
   snd (generateSpeech (Some ''key'') (\<lambda>req. Inr refusal) ''Hello'' ''Kore'') =
     Inl (Error ''API returned text instead of audio: Sorry'') \<and>
   snd (generateSpeech (Some ''key'') (\<lambda>req. Inl (Error ''offline'')) ''Hello'' ''Kore'') =
     Inl (Error ''offline'')"
  using generateSpeech_failures [of "Some ''key''" "\<lambda>req. Inr blocked" "''Hello''" "''Kore''"
      _ blocked _ "''SAFETY''"]
    generateSpeech_failures [of "Some ''key''" "\<lambda>req. Inr refusal" "''Hello''" "''Kore''"
      _ refusal "''Sorry''" _]
    generateSpeech_failures [of "Some ''key''" "\<lambda>req. Inl (Error ''offline'')" "''Hello''" "''Kore''"
      "Error ''offline''" _ _ _]
  by (simp add: truthy_def blocked_def refusal_def inline_audio_def first_def)

section \<open>Properties of the PCM interpreter\<close>

lemma length_int16_elements: "length (int16_elements bs) = length bs div 2"
  by (induction bs rule: int16_elements.induct) simp_all

lemma nth_int16_elements:
  "k < length bs div 2 \<Longrightarrow> int16_elements bs ! k = word_cat (bs ! (2 * k + 1)) (bs ! (2 * k))"
proof (induction bs arbitrary: k rule: int16_elements.induct)
  case (1 lo hi rest)
  then show ?case by (cases k) simp_all
qed simp_all

lemma sample_at_int16:
  "k < length bs div 2 \<Longrightarrow>
   sample_at (int16_elements bs) k = Num (of_int (int16_le bs k) / 32768)"
  by (simp add: sample_at_def int16_le_def length_int16_elements nth_int16_elements)

lemma fold_writes:
  "fold (\<lambda>i cd. cd[i := f i]) [0..<n] xs =
   map (\<lambda>i. if i < n then f i else xs ! i) [0..<length xs]"
proof (induction n)
  case 0
  then show ?case by (simp add: map_nth)
next
  case (Suc n)
  show ?case
    by (rule nth_equalityI) (auto simp: Suc nth_list_update less_Suc_eq)
qed

lemma frame_loop_fills:
  assumes "len \<le> iterations frameCount"
  shows "frame_loop d nc ch frameCount (replicate len z) = map (\<lambda>i. sample_at d (i * nc + ch)) [0..<len]"
  using assms by (simp add: frame_loop_def fold_writes)

lemma channel_loop_fills:
  assumes "len \<le> iterations frameCount" "numberOfChannels b = n" "length (channels b) = n"
    "\<forall>c<n. k \<le> c \<longrightarrow> channels b ! c = replicate len z" "k \<le> n"
  shows "channel_loop [k..<n] d nc frameCount b =
         Inr (b\<lparr>channels := map (\<lambda>c. if c < k then channels b ! c
                                     else map (\<lambda>i. sample_at d (i * nc + c)) [0..<len]) [0..<n]\<rparr>)"
  using assms
proof (induction "n - k" arbitrary: k b)
  case 0
  then have "k = n" by simp
  moreover have "map (\<lambda>c. if c < n then channels b ! c
                      else map (\<lambda>i. sample_at d (i * nc + c)) [0..<len]) [0..<n] = channels b"
    using 0 by (intro nth_equalityI) simp_all
  ultimately show ?case by simp
next
  case (Suc m)
  then have kn: "k < n" by simp
  let ?b = "b\<lparr>channels := (channels b)[k := frame_loop d nc k frameCount (channels b ! k)]\<rparr>"
  have step: "channel_loop [k..<n] d nc frameCount b = channel_loop [Suc k..<n] d nc frameCount ?b"
    using kn Suc.prems by (simp add: upt_conv_Cons then_do_def getChannelData_def)
  have filled: "frame_loop d nc k frameCount (channels b ! k) = map (\<lambda>i. sample_at d (i * nc + k)) [0..<len]"
    using kn Suc.prems by (simp add: frame_loop_fills)
  have "channel_loop [Suc k..<n] d nc frameCount ?b =
        Inr (?b\<lparr>channels := map (\<lambda>c. if c < Suc k then channels ?b ! c
                                     else map (\<lambda>i. sample_at d (i * nc + c)) [0..<len]) [0..<n]\<rparr>)"
    using Suc.prems Suc.hyps(2) kn by (intro Suc.hyps(1)) auto
  also have "\<dots> = Inr (b\<lparr>channels := map (\<lambda>c. if c < k then channels b ! c
                                     else map (\<lambda>i. sample_at d (i * nc + c)) [0..<len]) [0..<n]\<rparr>)"
    using kn Suc.prems by (auto simp: filled nth_list_update less_Suc_eq)
  finally show ?case using step by simp
qed

lemma iterations_js_divide: "0 < nc \<Longrightarrow> s div nc \<le> iterations (js_divide s nc)"
proof -
  assume nc: "0 < nc"
  have "of_nat (s div nc) \<le> (of_nat s / of_nat nc :: rat)"
    using nc by (metis floor_divide_of_nat_eq of_int_floor_le of_int_of_nat_eq)
  then have "int (s div nc) \<le> \<lceil>of_nat s / of_nat nc :: rat\<rceil>"
    by (metis le_of_int_ceiling of_int_le_iff of_int_of_nat_eq order_trans)
  then show ?thesis using nc by (simp add: iterations_def js_divide_def le_nat_iff)
qed

lemma decodeAudioData_even:
  assumes ev: "even (length data)"
    and buf: "createBuffer ctx nc (js_divide (length data div 2) nc) rate
                = Inr (silence nc (length data div 2 div nc) rate)"
  shows "decodeAudioData data ctx rate nc =
         Inr \<lparr>numberOfChannels = nc, frames = length data div 2 div nc, sampleRate = rate,
              channels = map (\<lambda>c. map (\<lambda>i. Num (of_int (int16_le data (i * nc + c)) / 32768))
                                       [0..<length data div 2 div nc]) [0..<nc]\<rparr>"
proof -
  let ?S = "length data div 2" and ?d = "int16_elements data"
  let ?F = "?S div nc"
  have arr: "Int16Array data = Inr ?d"
    using ev by (simp add: Int16Array_def even_iff_mod_2_eq_zero)
  have loop: "channel_loop [0..<nc] ?d nc (js_divide ?S nc) (silence nc ?F rate) =
        Inr ((silence nc ?F rate)\<lparr>channels := map (\<lambda>c. if c < 0 then channels (silence nc ?F rate) ! c
                                     else map (\<lambda>i. sample_at ?d (i * nc + c)) [0..<?F]) [0..<nc]\<rparr>)"
  proof (cases "nc = 0")
    case True
    then show ?thesis by (simp add: silence_def)
  next
    case False
    then show ?thesis
      by (intro channel_loop_fills [where z = "Num 0"]) (simp_all add: silence_def iterations_js_divide)
  qed
  have idx: "i * nc + c < ?S" if "i < ?F" "c < nc" for i c
  proof -
    have "i * nc + c < Suc i * nc" using that by simp
    also have "\<dots> \<le> ?F * nc" using that by (simp add: Suc_leI mult_le_mono1 del: mult_Suc)
    also have "\<dots> \<le> ?S" by simp
    finally show ?thesis .
  qed
  have "map (\<lambda>c. map (\<lambda>i. sample_at ?d (i * nc + c)) [0..<?F]) [0..<nc]
      = map (\<lambda>c. map (\<lambda>i. Num (of_int (int16_le data (i * nc + c)) / 32768)) [0..<?F]) [0..<nc]"
    by (auto simp: sample_at_int16 idx)
  then show ?thesis
    using arr buf loop
    by (simp add: decodeAudioData_def then_do_def length_int16_elements silence_def)
qed

lemma int16_le_bounds: "- 32768 \<le> int16_le bs k \<and> int16_le bs k < 32768"
  using sint_ge [of "word_cat (bs ! (2 * k + 1)) (bs ! (2 * k)) :: 16 word"]
    sint_lt [of "word_cat (bs ! (2 * k + 1)) (bs ! (2 * k)) :: 16 word"]
  by (simp add: int16_le_def)

lemma whole_frames:
  assumes "0 < nc" "length data mod (2 * nc) = 0"
  shows "even (length data)"
    and "js_divide (length data div 2) nc = Num (of_nat (length data div 2 div nc))"
proof -
  from assms(2) obtain k where k: "length data = 2 * nc * k"
    by (auto simp: mod_eq_0_iff_dvd)
  then show "even (length data)" by simp
  from k have "length data div 2 = nc * k" by simp
  then have "(of_nat (length data div 2 div nc) :: rat) = of_nat (length data div 2) / of_nat nc"
    using assms(1) by simp
  then show "js_divide (length data div 2) nc = Num (of_nat (length data div 2 div nc))"
    using assms(1) by (simp add: js_divide_def)
qed



lemma to_unsigned_long_js_divide:
  "0 < nc \<Longrightarrow> to_unsigned_long (js_divide s nc) = s div nc mod 2 ^ 32"
  by (simp add: to_unsigned_long_def js_divide_def floor_divide_of_nat_eq)

lemma to_unsigned_long_of_nat: "to_unsigned_long (Num (of_nat n)) = n mod 2 ^ 32"
  by (simp add: to_unsigned_long_def)

lemma createBuffer_supported:
  assumes "0 < nc" "nc < 2 ^ 32" "s div nc < 2 ^ 32" "supported ctx nc (s div nc) rate"
  shows "createBuffer ctx nc (js_divide s nc) rate = Inr (silence nc (s div nc) rate)"
  unfolding createBuffer_def to_unsigned_long_of_nat to_unsigned_long_js_divide [OF assms(1)]
  using assms by simp

lemma createBuffer_example:
  "createBuffer exampleContext 1 (js_divide (length [b0, b1 :: u8] div 2) 1) 24000
     = Inr (silence 1 (length [b0, b1] div 2 div 1) 24000)"
  using createBuffer_supported [of 1 "length [b0, b1] div 2" exampleContext 24000]
  by (simp add: exampleContext_def)

lemma int16_le_min: "int16_le [0x00, 0x80] 0 = - 32768"
  by (simp add: int16_le_def word_cat_eq)



text \<open>
  Claim C5. For every well-formed buffer, on a device that supplies the buffer asked for,
  \<^verbatim>\<open>decodeAudioData\<close> returns a buffer every sample of which is a finite number \<open>q\<close> with
  \<open>-1 \<le> q < 1\<close>, and \<open>q = -1\<close> exactly when the 16-bit integer it comes from is \<open>-32768\<close>.
\<close>

theorem decodeAudioData_range:
  assumes "0 < numChannels"
    and "length data mod (2 * numChannels) = 0"
    and "createBuffer ctx numChannels (js_divide (length data div 2) numChannels) rate
           = Inr (silence numChannels (length data div 2 div numChannels) rate)"
  shows "\<exists>buffer. decodeAudioData data ctx rate numChannels = Inr buffer \<and>
           (\<forall>c<numChannels. \<forall>i<length data div 2 div numChannels.
              \<exists>q. channels buffer ! c ! i = Num q \<and> - 1 \<le> q \<and> q < 1 \<and>
                  (q = - 1 \<longleftrightarrow> int16_le data (i * numChannels + c) = - 32768))"
proof -
  have r: "- 1 \<le> (of_int v / 32768 :: rat) \<and> (of_int v / 32768 :: rat) < 1 \<and>
           ((of_int v / 32768 :: rat) = - 1 \<longleftrightarrow> v = - 32768)"
    if "- 32768 \<le> v" "v < 32768" for v :: int
    using that by (auto simp: field_simps)
  let ?buffer = "\<lparr>numberOfChannels = numChannels,
                frames = length data div 2 div numChannels,
                sampleRate = rate,
                channels = map (\<lambda>c. map (\<lambda>i. Num (of_int (int16_le data (i * numChannels + c)) / 32768))
                                         [0..<length data div 2 div numChannels])
                             [0..<numChannels]\<rparr>"
  have "decodeAudioData data ctx rate numChannels = Inr ?buffer"
    using whole_frames(1) [OF assms(1,2)] assms(3) by (rule decodeAudioData_even)
  moreover have "\<exists>q. channels ?buffer ! c ! i = Num q \<and> - 1 \<le> q \<and> q < 1 \<and>
                  (q = - 1 \<longleftrightarrow> int16_le data (i * numChannels + c) = - 32768)"
    if "c < numChannels" "i < length data div 2 div numChannels" for c i
  proof -
    let ?q = "of_int (int16_le data (i * numChannels + c)) / 32768 :: rat"
    have "channels ?buffer ! c ! i = Num ?q"
      using that by simp
    moreover have "- 1 \<le> ?q \<and> ?q < 1 \<and> (?q = - 1 \<longleftrightarrow> int16_le data (i * numChannels + c) = - 32768)"
      using int16_le_bounds [of data "i * numChannels + c"] by (intro r) simp_all
    ultimately show ?thesis by blast
  qed
  ultimately show ?thesis by blast
qed

theorem decodeAudioData_range_witness:
  "case decodeAudioData [0x00, 0x80] exampleContext 24000 1 of
     Inl e \<Rightarrow> False
   | Inr buffer \<Rightarrow> channels buffer ! 0 ! 0 = Num (- 1)"
proof -
  have h1: "0 < (1::nat)" and h2: "length [0x00, 0x80 :: u8] mod (2 * 1) = 0" by simp_all
  have h3: "createBuffer exampleContext 1 (js_divide (length [0x00, 0x80 :: u8] div 2) 1) 24000
              = Inr (silence 1 (length [0x00, 0x80 :: u8] div 2 div 1) 24000)"
    by (rule createBuffer_example)
  from decodeAudioData_range [OF h1 h2 h3]
  obtain buffer q where b: "decodeAudioData [0x00, 0x80] exampleContext 24000 1 = Inr buffer"
    and q: "channels buffer ! 0 ! 0 = Num q"
      "q = - 1 \<longleftrightarrow> int16_le [0x00, 0x80] (0 * 1 + 0) = - 32768"
    by force
  then show ?thesis by (simp add: int16_le_min)
qed

text \<open>
  Three bytes for one channel: no frame comes out, the call raises.
\<close>

theorem decodeAudioData_odd_counterexample:
  "decodeAudioData [0xFF, 0x7F, 0x00] exampleContext 24000 1 = Inl RangeError"
  by (simp add: decodeAudioData_def Int16Array_def then_do_def)

text \<open>
  Claim C4, amended. A buffer of odd length is not truncated: the 16-bit view cannot be built
  and \<^verbatim>\<open>decodeAudioData\<close> raises a \<^verbatim>\<open>RangeError\<close>, whatever the device, the rate and the
  channel count. A buffer of even length is never rejected by the interpreter itself: on a
  device that supplies the buffer asked for, the result has \<open>sampleCount div numChannels\<close>
  frames, taken from the first samples, also when the length is not a multiple of
  \<open>2 * numChannels\<close>.
\<close>

theorem decodeAudioData_ragged:
  "(odd (length data) \<longrightarrow> decodeAudioData data ctx rate numChannels = Inl RangeError) \<and>
   (even (length data) \<and>
    createBuffer ctx numChannels (js_divide (length data div 2) numChannels) rate
      = Inr (silence numChannels (length data div 2 div numChannels) rate) \<longrightarrow>
    decodeAudioData data ctx rate numChannels =
      Inr \<lparr>numberOfChannels = numChannels,
           frames = length data div 2 div numChannels,
           sampleRate = rate,
           channels = map (\<lambda>c. map (\<lambda>i. Num (of_int (int16_le data (i * numChannels + c)) / 32768))
                                    [0..<length data div 2 div numChannels])
                        [0..<numChannels]\<rparr>)"
proof (intro conjI impI)
  assume "odd (length data)"
  then show "decodeAudioData data ctx rate numChannels = Inl RangeError"
    by (simp add: decodeAudioData_def Int16Array_def then_do_def odd_iff_mod_2_eq_one)
next
  assume "even (length data) \<and>
    createBuffer ctx numChannels (js_divide (length data div 2) numChannels) rate
      = Inr (silence numChannels (length data div 2 div numChannels) rate)"
  then show "decodeAudioData data ctx rate numChannels =
      Inr \<lparr>numberOfChannels = numChannels,
           frames = length data div 2 div numChannels,
           sampleRate = rate,
           channels = map (\<lambda>c. map (\<lambda>i. Num (of_int (int16_le data (i * numChannels + c)) / 32768))
                                    [0..<length data div 2 div numChannels])
                        [0..<numChannels]\<rparr>"
    using decodeAudioData_even by blast
qed

lemma createBuffer_example_ragged:
  "createBuffer exampleContext 2 (js_divide (length [b0, b1, b2, b3, b4, b5 :: u8] div 2) 2) 24000
     = Inr (silence 2 (length [b0, b1, b2, b3, b4, b5] div 2 div 2) 24000)"
  using createBuffer_supported [of 2 "length [b0, b1, b2, b3, b4, b5] div 2" exampleContext 24000]
  by (simp add: exampleContext_def)

lemma upt2: "[0..<2] = [0, 1]"
  by (simp add: upt_conv_Cons numeral_2_eq_2)

lemma upt1: "[0..<1] = [0]"
  by simp

theorem decodeAudioData_ragged_witness:
  "decodeAudioData [0xFF, 0x7F, 0x00] exampleContext 24000 1 = Inl RangeError \<and>
   decodeAudioData [0xFF, 0x7F, 0x00, 0x80, 0x01, 0x00] exampleContext 24000 2 =
     Inr \<lparr>numberOfChannels = 2, frames = 1, sampleRate = 24000,
          channels = [[Num (32767 / 32768)], [Num (- 1)]]\<rparr>"
proof -
  have "int16_le [0xFF, 0x7F, 0x00, 0x80, 0x01, 0x00] 0 = 32767"
    "int16_le [0xFF, 0x7F, 0x00, 0x80, 0x01, 0x00] 1 = - 32768"
    by (simp_all add: int16_le_def word_cat_eq)
  then show ?thesis
    using decodeAudioData_ragged [of "[0xFF, 0x7F, 0x00]" exampleContext 24000 1]
      decodeAudioData_ragged [of "[0xFF, 0x7F, 0x00, 0x80, 0x01, 0x00]" exampleContext 24000 2]
      createBuffer_example_ragged [of "0xFF" "0x7F" "0x00" "0x80" "0x01" "0x00"]
    by (simp add: upt2 upt1)
qed

section \<open>Properties of the base64 decoder\<close>

subsection \<open>The alphabet\<close>

lemma index_of_Some: "index_of x xs = Some n \<Longrightarrow> n < length xs \<and> xs ! n = x"
  by (induction xs arbitrary: n) (auto split: if_splits)

lemma index_of_None: "index_of x xs = None \<longleftrightarrow> x \<notin> set xs"
  by (induction xs) auto

lemma index_of_nth: "distinct xs \<Longrightarrow> n < length xs \<Longrightarrow> index_of (xs ! n) xs = Some n"
proof (induction xs arbitrary: n)
  case Nil
  then show ?case by simp
next
  case (Cons y ys)
  then show ?case by (cases n) auto
qed

lemma length_base64_alphabet: "length base64_alphabet = 64"
  by (simp add: base64_alphabet_def)

lemma distinct_base64_alphabet: "distinct base64_alphabet"
  by (simp add: base64_alphabet_def)

lemma base64_value_char: "n < 64 \<Longrightarrow> base64_value (base64_char n) = Some n"
  by (simp add: base64_value_def base64_char_def index_of_nth distinct_base64_alphabet
      length_base64_alphabet)

lemma base64_value_less: "base64_value c = Some n \<Longrightarrow> n < 64"
  using index_of_Some [of c base64_alphabet n] by (simp add: base64_value_def length_base64_alphabet)

lemma base64_value_pad: "base64_value (CHR ''='') = None"
  by (simp add: base64_value_def index_of_None base64_alphabet_def)

lemma base64_value_whitespace:
  assumes "ascii_whitespace c"
  shows "base64_value c = None"
proof -
  from assms have "c = CHR 0x09 \<or> c = CHR 0x0A \<or> c = CHR 0x0C \<or> c = CHR 0x0D \<or> c = CHR 0x20"
    by (simp add: ascii_whitespace_def)
  then have "c \<notin> set base64_alphabet"
    by (elim disjE) (simp_all add: base64_alphabet_def)
  then show ?thesis by (simp add: base64_value_def index_of_None)
qed


subsection \<open>The steps before the loop\<close>

lemma those_map:
  "those (map f xs) = (if list_all (\<lambda>x. f x \<noteq> None) xs then Some (map (the \<circ> f) xs) else None)"
  by (induction xs) (auto split: option.splits)

lemma forgiving_base64_decode_eq:
  "forgiving_base64_decode d =
     (let d1 = filter (\<lambda>c. \<not> ascii_whitespace c) d;
          d2 = (if length d1 mod 4 = 0 then remove_padding d1 else d1)
      in if length d2 mod 4 \<noteq> 1 \<and> list_all (\<lambda>c. base64_value c \<noteq> None) d2
         then Some (base64_loop (map (the \<circ> base64_value) d2) 0 0 [])
         else None)"
  by (simp add: forgiving_base64_decode_def those_map Let_def)

lemma no_whitespace:
  assumes "list_all (\<lambda>c. base64_value c \<noteq> None) body"
  shows "filter (\<lambda>c. \<not> ascii_whitespace c) (body @ replicate p (CHR ''='')) = body @ replicate p (CHR ''='')"
proof -
  have "\<not> ascii_whitespace c" if "c \<in> set body" for c
    using assms that base64_value_whitespace [of c] by (auto simp: list_all_iff)
  moreover have "\<not> ascii_whitespace (CHR ''='')"
    by (simp add: ascii_whitespace_def)
  ultimately show ?thesis
    by (auto intro!: filter_True)
qed

lemma remove_padding_append:
  assumes "body = [] \<or> last body \<noteq> CHR ''=''"
  shows "remove_padding (body @ replicate p (CHR ''='')) = body @ replicate (p - 2) (CHR ''='')"
proof -
  consider "p = 0" | "p = 1" | q where "p = Suc (Suc q)"
    by (metis One_nat_def not0_implies_Suc)
  then show ?thesis
  proof cases
    case 1
    with assms show ?thesis by (auto simp: remove_padding_def)
  next
    case 2
    with assms show ?thesis by (auto simp: remove_padding_def)
  next
    case 3
    have "replicate (q + 2) (CHR ''='') = replicate q (CHR ''='') @ [CHR ''='', CHR ''='']"
      unfolding replicate_add by (simp add: numeral_2_eq_2)
    then have "body @ replicate p (CHR ''='') = (body @ replicate q (CHR ''='')) @ [CHR ''='', CHR ''='']"
      using 3 by simp
    then show ?thesis
      using 3 by (simp add: remove_padding_def butlast_append)
  qed
qed

lemma alphabet_last:
  "list_all (\<lambda>c. base64_value c \<noteq> None) body \<Longrightarrow> body = [] \<or> last body \<noteq> CHR ''=''"
  using base64_value_pad by (cases body rule: rev_cases) (auto simp: list_all_iff)

lemma pad_count_append:
  assumes "body = [] \<or> last body \<noteq> CHR ''=''"
  shows "pad_count (body @ replicate p (CHR ''='')) = p"
proof -
  have "takeWhile (\<lambda>c. c = CHR ''='') (rev body) = []"
    using assms by (cases body rule: rev_cases) auto
  moreover have "takeWhile (\<lambda>c. c = CHR ''='') (replicate p (CHR ''='') @ rev body) =
      replicate p (CHR ''='') @ takeWhile (\<lambda>c. c = CHR ''='') (rev body)"
    by (rule takeWhile_append2) simp
  ultimately show ?thesis
    by (simp add: pad_count_def)
qed

lemma pad_split:
  obtains body where "s = body @ replicate (pad_count s) (CHR ''='')"
    and "body = [] \<or> last body \<noteq> CHR ''=''"
proof
  let ?P = "\<lambda>c. c = CHR ''=''"
  let ?body = "rev (dropWhile ?P (rev s))"
  have "takeWhile ?P (rev s) = replicate (pad_count s) (CHR ''='')"
    unfolding pad_count_def
    by (rule replicate_length_same [symmetric]) (auto dest: set_takeWhileD)
  then have "rev s = replicate (pad_count s) (CHR ''='') @ dropWhile ?P (rev s)"
    by (metis takeWhile_dropWhile_id)
  then have "rev (rev s) = rev (replicate (pad_count s) (CHR ''='') @ dropWhile ?P (rev s))"
    by simp
  then show "s = ?body @ replicate (pad_count s) (CHR ''='')"
    by simp
  show "?body = [] \<or> last ?body \<noteq> CHR ''=''"
    using hd_dropWhile [of ?P "rev s"] by (auto simp: last_rev)
qed

lemma valid_base64_append:
  assumes "body = [] \<or> last body \<noteq> CHR ''=''"
  shows "valid_base64 (body @ replicate p (CHR ''='')) \<longleftrightarrow>
         (length body + p) mod 4 = 0 \<and> p \<le> 2 \<and> list_all (\<lambda>c. base64_value c \<noteq> None) body"
  by (simp add: valid_base64_def pad_count_append [OF assms])

lemma accepted_padded:
  assumes last: "body = [] \<or> last body \<noteq> CHR ''=''"
    and len: "(length body + p) mod 4 = 0"
  shows "(let d2 = remove_padding (body @ replicate p (CHR ''=''))
          in length d2 mod 4 \<noteq> 1 \<and> list_all (\<lambda>c. base64_value c \<noteq> None) d2)
         \<longleftrightarrow> p \<le> 2 \<and> list_all (\<lambda>c. base64_value c \<noteq> None) body"
proof (cases "p \<le> 2")
  case True
  then have "p - 2 = 0" by simp
  moreover from len True have "length body mod 4 \<noteq> 1" by presburger
  ultimately show ?thesis
    using True by (simp add: remove_padding_append [OF last])
next
  case False
  then have "CHR ''='' \<in> set (replicate (p - 2) (CHR ''=''))" by simp
  then have "\<not> list_all (\<lambda>c. base64_value c \<noteq> None) (replicate (p - 2) (CHR ''=''))"
    using base64_value_pad by (auto simp: list_all_iff)
  then show ?thesis
    using False by (simp add: remove_padding_append [OF last])
qed

lemma padded_decode:
  assumes "list_all (\<lambda>c. base64_value c \<noteq> None) body" "p \<le> 2" "(length body + p) mod 4 = 0"
  shows "forgiving_base64_decode (body @ replicate p (CHR ''='')) =
         Some (base64_loop (map (the \<circ> base64_value) body) 0 0 [])"
proof -
  have last: "body = [] \<or> last body \<noteq> CHR ''=''"
    using assms(1) by (rule alphabet_last)
  have "p - 2 = 0" using assms(2) by simp
  then have rp: "remove_padding (body @ replicate p (CHR ''='')) = body"
    using remove_padding_append [OF last, of p] by simp
  have len: "length body mod 4 \<noteq> 1" using assms(2,3) by presburger
  have nw: "filter (\<lambda>c. \<not> ascii_whitespace c) (body @ replicate p (CHR ''='')) =
            body @ replicate p (CHR ''='')"
    using assms(1) by (rule no_whitespace)
  show ?thesis
    unfolding forgiving_base64_decode_eq nw Let_def
    using assms len by (simp add: rp)
qed


subsection \<open>The loop\<close>

lemma length_base64_loop:
  "bits \<in> {0, 6, 12, 18} \<Longrightarrow>
   length (base64_loop ns buffer bits out) = length out + (bits + 6 * length ns) div 8"
proof (induction ns arbitrary: buffer bits out)
  case Nil
  then show ?case by auto
next
  case (Cons n ns)
  from Cons.prems consider "bits = 0" | "bits = 6" | "bits = 12" | "bits = 18" by auto
  then show ?case
    by cases (simp_all add: Cons.IH Let_def)
qed

lemma loop_step4:
  assumes "n = ((v1 * 64 + v2) * 64 + v3) * 64 + v4"
  shows "base64_loop ([v1, v2, v3, v4] @ rest) 0 0 out =
         base64_loop rest 0 0 (out @ [char_of (n div 65536), char_of (n div 256), char_of n])"
  by (simp add: assms Let_def)

lemma loop_step3:
  assumes "n = (v1 * 64 + v2) * 64 + v3"
  shows "base64_loop [v1, v2, v3] 0 0 out = out @ [char_of (n div 1024), char_of (n div 4)]"
  by (simp add: assms Let_def)

lemma loop_step2:
  assumes "n = v1 * 64 + v2"
  shows "base64_loop [v1, v2] 0 0 out = out @ [char_of (n div 16)]"
  by (simp add: assms Let_def)

lemma regroup:
  "((p * 64 + (q * 16 + r)) * 64 + (s * 4 + t)) * 64 + u =
   (p * 4 + q) * 65536 + (r * 16 + s) * 256 + (t * 64 + (u::nat))"
  by (simp add: algebra_simps)

lemma three_bytes:
  fixes a b c :: u8
  defines "n \<equiv> ((unat a div 4 * 64 + (unat a mod 4 * 16 + unat b div 16)) * 64
                 + (unat b mod 16 * 4 + unat c div 64)) * 64 + unat c mod 64"
  shows "n = unat a * 65536 + unat b * 256 + unat c"
  unfolding n_def regroup by simp

lemma unat_u8_less: "unat b < 256" for b :: u8
  using unsigned_less [of b, where ?'a = nat] by simp

lemma char_of_unat_eq: "m mod 256 = unat b \<Longrightarrow> char_of m = char_of (unat b)" for b :: u8
  by (metis char_of_mod_256)

lemma loop_three:
  fixes a b c :: u8
  shows "base64_loop ([unat a div 4, unat a mod 4 * 16 + unat b div 16,
                       unat b mod 16 * 4 + unat c div 64, unat c mod 64] @ rest) 0 0 out =
         base64_loop rest 0 0 (out @ [char_of (unat a), char_of (unat b), char_of (unat c)])"
proof -
  define n where "n = unat a * 65536 + unat b * 256 + unat c"
  have a: "unat a < 256" and b: "unat b < 256" and c: "unat c < 256"
    by (rule unat_u8_less)+
  have "n div 65536 = unat a" unfolding n_def using b c by simp
  then have 1: "char_of (n div 65536) = char_of (unat a)" by simp
  have "n div 256 = unat a * 256 + unat b" unfolding n_def using c by simp
  then have "n div 256 mod 256 = unat b" using b by simp
  then have 2: "char_of (n div 256) = char_of (unat b)" by (rule char_of_unat_eq)
  have "n = (unat a * 256 + unat b) * 256 + unat c" unfolding n_def by simp
  then have "n mod 256 = unat c" using c by (simp only: mod_mult_self3 mod_less)
  then have 3: "char_of n = char_of (unat c)" by (rule char_of_unat_eq)
  have n: "n = ((unat a div 4 * 64 + (unat a mod 4 * 16 + unat b div 16)) * 64
                 + (unat b mod 16 * 4 + unat c div 64)) * 64 + unat c mod 64"
    unfolding n_def by (rule three_bytes [symmetric])
  show ?thesis
    by (simp only: loop_step4 [OF n] 1 2 3)
qed

lemma loop_two:
  fixes a b :: u8
  shows "base64_loop [unat a div 4, unat a mod 4 * 16 + unat b div 16, unat b mod 16 * 4] 0 0 out =
         out @ [char_of (unat a), char_of (unat b)]"
proof -
  define n where "n = unat a * 1024 + unat b * 4"
  have b: "unat b < 256" by (rule unat_u8_less)
  have n: "n = (unat a div 4 * 64 + (unat a mod 4 * 16 + unat b div 16)) * 64 + unat b mod 16 * 4"
    unfolding n_def
    using regroup [of "unat a div 4" "unat a mod 4" "unat b div 16" "unat b mod 16" 0 0]
    by (simp add: algebra_simps)
  have "n div 1024 = unat a" unfolding n_def using b by simp
  then have 1: "char_of (n div 1024) = char_of (unat a)" by simp
  have "n div 4 = unat a * 256 + unat b" unfolding n_def by simp
  then have "n div 4 mod 256 = unat b" using b by simp
  then have 2: "char_of (n div 4) = char_of (unat b)" by (rule char_of_unat_eq)
  show ?thesis
    by (simp only: loop_step3 [OF n] 1 2)
qed

lemma loop_one:
  fixes a :: u8
  shows "base64_loop [unat a div 4, unat a mod 4 * 16] 0 0 out = out @ [char_of (unat a)]"
proof -
  define n where "n = unat a * 16"
  have "unat a = unat a div 4 * 4 + unat a mod 4" by simp
  then have "unat a * 16 = (unat a div 4 * 4 + unat a mod 4) * 16" by simp
  then have n: "n = unat a div 4 * 64 + unat a mod 4 * 16"
    unfolding n_def by (simp only: add_mult_distrib mult.assoc)
  have "n div 16 = unat a" unfolding n_def by simp
  then have 1: "char_of (n div 16) = char_of (unat a)" by simp
  show ?thesis
    by (simp only: loop_step2 [OF n] 1)
qed

lemma base64_loop_sextets:
  "base64_loop (sextets x) 0 0 out = out @ map (\<lambda>b. char_of (unat b)) x"
proof (induction x arbitrary: out rule: sextets.induct)
  case 1
  then show ?case by simp
next
  case (2 a)
  then show ?case using loop_one [of a out] by simp
next
  case (3 a b)
  then show ?case using loop_two [of a b out] by simp
next
  case (4 a b c rest)
  then show ?case using loop_three [of a b c "sextets rest" out] by simp
qed

lemma sextets_less: "n \<in> set (sextets x) \<Longrightarrow> n < 64"
proof (induction x rule: sextets.induct)
  case (4 a b c rest)
  have "unat a < 256" "unat b < 256" "unat c < 256"
    by (rule unat_u8_less)+
  with 4 show ?case by auto
next
  case (3 a b)
  have "unat a < 256" "unat b < 256"
    by (rule unat_u8_less)+
  with 3 show ?case by auto
next
  case (2 a)
  have "unat a < 256" by (rule unat_u8_less)
  with 2 show ?case by auto
qed simp

lemma length_sextets:
  "(length (sextets x) + (3 - length x mod 3) mod 3) mod 4 = 0"
proof (induction x rule: sextets.induct)
  case (4 a b c rest)
  have "length (a # b # c # rest) = length rest + 3" by simp
  then have "length (a # b # c # rest) mod 3 = length rest mod 3"
    by (simp only: mod_add_self2)
  then have p: "(3 - length (a # b # c # rest) mod 3) mod 3 = (3 - length rest mod 3) mod 3"
    by (simp only:)
  have l: "length (sextets (a # b # c # rest)) = length (sextets rest) + 4" by simp
  have "(length (sextets rest) + 4 + (3 - length rest mod 3) mod 3) mod 4 =
        (length (sextets rest) + (3 - length rest mod 3) mod 3 + 4) mod 4"
    by (simp only: ac_simps)
  also have "\<dots> = (length (sextets rest) + (3 - length rest mod 3) mod 3) mod 4"
    by (rule mod_add_self2)
  finally show ?case
    using 4 by (simp only: p l)
qed simp_all

lemma pad_le_2: "(3 - n mod 3) mod 3 \<le> (2::nat)"
proof -
  have "(3 - n mod 3) mod 3 < 3" by (rule mod_less_divisor) simp
  then show ?thesis by simp
qed

subsection \<open>Round trip and byte count\<close>

lemma byte_of_char: "of_nat (charCode (char_of (unat b))) = b" for b :: u8
proof -
  have "unat b mod 256 = unat b"
    using unat_u8_less [of b] by simp
  then show ?thesis
    by (simp add: charCode_def)
qed

lemma alphabet_sextets: "list_all (\<lambda>c. base64_value c \<noteq> None) (map base64_char (sextets x))"
  by (simp add: list_all_iff base64_value_char sextets_less)

lemma values_sextets: "map (the \<circ> base64_value) (map base64_char (sextets x)) = sextets x"
proof -
  have "map (the \<circ> base64_value) (map base64_char (sextets x)) =
        map (\<lambda>n. the (base64_value (base64_char n))) (sextets x)"
    by simp
  also have "\<dots> = sextets x"
    by (rule map_idI) (simp add: base64_value_char sextets_less)
  finally show ?thesis .
qed

lemma forgiving_base64_decode_encode:
  "forgiving_base64_decode (base64Encode x) = Some (map (\<lambda>b. char_of (unat b)) x)"
proof -
  have "forgiving_base64_decode (base64Encode x) =
        Some (base64_loop (map (the \<circ> base64_value) (map base64_char (sextets x))) 0 0 [])"
    unfolding base64Encode_def
  proof (rule padded_decode)
    show "list_all (\<lambda>c. base64_value c \<noteq> None) (map base64_char (sextets x))"
      by (rule alphabet_sextets)
    show "(3 - length x mod 3) mod 3 \<le> 2"
      by (rule pad_le_2)
    show "(length (map base64_char (sextets x)) + (3 - length x mod 3) mod 3) mod 4 = 0"
      by (simp only: length_map length_sextets)
  qed
  then show ?thesis
    by (simp only: values_sextets base64_loop_sextets append_Nil)
qed

lemma decoded_length:
  assumes "(m + p) mod 4 = 0" "p \<le> 2"
  shows "(6 * m) div 8 = 3 * ((m + p) div 4) - (p::nat)"
proof -
  from assms(1) obtain k where k: "m + p = 4 * k"
    by (auto simp: mod_eq_0_iff_dvd)
  from assms(2) consider "p = 0" | "p = 1" | "p = 2" by linarith
  then show ?thesis
  proof cases
    case 1
    with k show ?thesis by simp
  next
    case 2
    with k have "0 < k" "m = 4 * k - 1" by simp_all
    then show ?thesis using k 2 by (cases k) simp_all
  next
    case 3
    with k have "0 < k" "m = 4 * k - 2" by simp_all
    then show ?thesis using k 3 by (cases k) simp_all
  qed
qed

lemma forgiving_base64_decode_valid:
  assumes "valid_base64 s"
  shows "\<exists>bin. forgiving_base64_decode s = Some bin \<and> length bin = decoded_byte_count s"
proof -
  obtain body where s: "s = body @ replicate (pad_count s) (CHR ''='')"
    and last: "body = [] \<or> last body \<noteq> CHR ''=''"
    by (rule pad_split)
  let ?p = "pad_count s"
  from assms have "valid_base64 (body @ replicate ?p (CHR ''=''))"
    using s by simp
  then have v: "(length body + ?p) mod 4 = 0" "?p \<le> 2" "list_all (\<lambda>c. base64_value c \<noteq> None) body"
    by (simp_all add: valid_base64_append [OF last])
  have len: "length s = length body + ?p"
    using arg_cong [OF s, of length] by simp
  have "forgiving_base64_decode (body @ replicate ?p (CHR ''='')) =
        Some (base64_loop (map (the \<circ> base64_value) body) 0 0 [])"
    using v(3) v(2) v(1) by (rule padded_decode)
  then have "forgiving_base64_decode s = Some (base64_loop (map (the \<circ> base64_value) body) 0 0 [])"
    using s by simp
  moreover have "length (base64_loop (map (the \<circ> base64_value) body) 0 0 []) = decoded_byte_count s"
    using decoded_length [OF v(1) v(2)]
    by (simp add: length_base64_loop decoded_byte_count_def len)
  ultimately show ?thesis by simp
qed

text \<open>
  Claim C6. For every byte sequence \<open>x\<close>, \<^verbatim>\<open>decode\<close> of the RFC 4648 encoding of \<open>x\<close> returns
  \<open>x\<close>; and for every padded base64 string \<^verbatim>\<open>decode\<close> returns a buffer of as many bytes as the
  string stands for: three per group of four characters, less one per padding character.
\<close>

theorem decode_round_trip:
  "decode (base64Encode x) = Inr x \<and>
   (valid_base64 s \<longrightarrow> (\<exists>bytes. decode s = Inr bytes \<and> length bytes = decoded_byte_count s))"
proof
  show "decode (base64Encode x) = Inr x"
    by (simp add: decode_def atob_def then_do_def forgiving_base64_decode_encode byte_of_char
        comp_def map_idI)
  show "valid_base64 s \<longrightarrow> (\<exists>bytes. decode s = Inr bytes \<and> length bytes = decoded_byte_count s)"
  proof
    assume "valid_base64 s"
    then obtain bin where "forgiving_base64_decode s = Some bin" "length bin = decoded_byte_count s"
      using forgiving_base64_decode_valid by blast
    then show "\<exists>bytes. decode s = Inr bytes \<and> length bytes = decoded_byte_count s"
      by (simp add: decode_def atob_def then_do_def)
  qed
qed

theorem decode_round_trip_witness:
  "decode (base64Encode [72, 101, 108, 108, 111]) = Inr [72, 101, 108, 108, 111] \<and>
   (case decode ''SGVsbG8='' of Inl e \<Rightarrow> False | Inr bytes \<Rightarrow> length bytes = 5)"
proof -
  have v: "valid_base64 ''SGVsbG8=''" by code_simp
  have n: "decoded_byte_count ''SGVsbG8='' = 5" by code_simp
  from decode_round_trip [of "[72, 101, 108, 108, 111]" "''SGVsbG8=''"] v n
  show ?thesis by auto
qed

subsection \<open>What the decoder rejects\<close>

lemma supply_count:
  fixes n :: nat
  assumes "n mod 4 \<noteq> 0"
  shows "(n + (4 - n mod 4) mod 4) mod 4 = 0"
    and "(4 - n mod 4) mod 4 \<le> 2 \<longleftrightarrow> n mod 4 \<noteq> 1"
proof -
  have "n mod 4 < 4" by simp
  with assms consider "n mod 4 = 1" | "n mod 4 = 2" | "n mod 4 = 3" by linarith
  then have "(n mod 4 + (4 - n mod 4) mod 4) mod 4 = 0 \<and>
             ((4 - n mod 4) mod 4 \<le> 2 \<longleftrightarrow> n mod 4 \<noteq> 1)"
    by cases simp_all
  then show "(n + (4 - n mod 4) mod 4) mod 4 = 0"
    and "(4 - n mod 4) mod 4 \<le> 2 \<longleftrightarrow> n mod 4 \<noteq> 1"
    by (simp_all only: mod_add_left_eq)
qed

lemma accepted_iff_valid:
  "forgiving_base64_decode s \<noteq> None \<longleftrightarrow> valid_base64 (normal_form s)"
proof -
  define t where "t = filter (\<lambda>c. \<not> ascii_whitespace c) s"
  let ?A = "\<lambda>d. list_all (\<lambda>c. base64_value c \<noteq> None) d"
  have acc: "forgiving_base64_decode s \<noteq> None \<longleftrightarrow>
      (let d2 = (if length t mod 4 = 0 then remove_padding t else t)
       in length d2 mod 4 \<noteq> 1 \<and> ?A d2)"
    by (simp add: forgiving_base64_decode_eq t_def Let_def)
  have nf: "normal_form s = supply_padding t"
    by (simp add: normal_form_def t_def)
  consider (whole) "length t mod 4 = 0"
    | (pad) "length t mod 4 \<noteq> 0" "CHR ''='' \<in> set t"
    | (bare) "length t mod 4 \<noteq> 0" "CHR ''='' \<notin> set t"
    by blast
  then have "(let d2 = (if length t mod 4 = 0 then remove_padding t else t)
       in length d2 mod 4 \<noteq> 1 \<and> ?A d2) \<longleftrightarrow> valid_base64 (supply_padding t)"
  proof cases
    case whole
    then have sp: "supply_padding t = t"
      by (simp add: supply_padding_def)
    obtain body where t: "t = body @ replicate (pad_count t) (CHR ''='')"
      and last: "body = [] \<or> last body \<noteq> CHR ''=''"
      by (rule pad_split)
    have len: "(length body + pad_count t) mod 4 = 0"
      using whole arg_cong [OF t, of length] by simp
    have "(let d2 = remove_padding t in length d2 mod 4 \<noteq> 1 \<and> ?A d2) \<longleftrightarrow>
          pad_count t \<le> 2 \<and> ?A body"
      using accepted_padded [OF last len] t by simp
    moreover have "valid_base64 t \<longleftrightarrow> pad_count t \<le> 2 \<and> ?A body"
      using valid_base64_append [OF last, of "pad_count t"] len t by simp
    ultimately show ?thesis
      using whole sp by simp
  next
    case pad
    then have "\<not> ?A t"
      using base64_value_pad by (auto simp: list_all_iff)
    moreover have "\<not> valid_base64 t"
      using pad(1) by (simp add: valid_base64_def)
    ultimately show ?thesis
      using pad by (simp add: supply_padding_def)
  next
    case bare
    let ?k = "(4 - length t mod 4) mod 4"
    have last: "t = [] \<or> last t \<noteq> CHR ''=''"
    proof (cases "t = []")
      case False
      then have "last t \<in> set t" by (rule last_in_set)
      with bare(2) show ?thesis by auto
    qed simp
    have k: "(length t + ?k) mod 4 = 0"
      and k2: "?k \<le> 2 \<longleftrightarrow> length t mod 4 \<noteq> 1"
      using bare(1) by (rule supply_count)+
    have "valid_base64 (t @ replicate ?k (CHR ''='')) \<longleftrightarrow> length t mod 4 \<noteq> 1 \<and> ?A t"
      using valid_base64_append [OF last, of ?k] k k2 by simp
    then show ?thesis
      using bare by (simp add: supply_padding_def)
  qed
  then show ?thesis
    using acc nf by simp
qed

text \<open>
  Two strings that are not padded base64, one for its length and one for its blanks, and that
  \<^verbatim>\<open>decode\<close> accepts.
\<close>

theorem decode_unpadded_counterexample:
  "\<not> valid_base64 ''YQ'' \<and> decode ''YQ'' = Inr [97] \<and>
   \<not> valid_base64 ''YQ =='' \<and> decode ''YQ =='' = Inr [97]"
  by code_simp

text \<open>
  Claim C7, amended. \<^verbatim>\<open>decode\<close> fails with an \<^verbatim>\<open>InvalidCharacterError\<close>, and returns no
  buffer, for every input that is not padded base64 even after its ASCII whitespace is removed
  and, when it has no \<^verbatim>\<open>=\<close> at all, the missing padding is supplied; every other input is
  decoded.
\<close>

theorem decode_rejects:
  "(\<not> valid_base64 (normal_form s) \<longrightarrow> decode s = Inl InvalidCharacterError) \<and>
   (valid_base64 (normal_form s) \<longrightarrow> (\<exists>bytes. decode s = Inr bytes))"
  using accepted_iff_valid [of s]
  by (auto simp: decode_def atob_def then_do_def split: option.splits)

theorem decode_rejects_witness:
  "decode ''YQ='' = Inl InvalidCharacterError \<and> decode ''a-b_'' = Inl InvalidCharacterError \<and>
   (case decode ''YQ'' of Inl e \<Rightarrow> False | Inr bytes \<Rightarrow> True)"
proof -
  have "\<not> valid_base64 (normal_form ''YQ='')" "\<not> valid_base64 (normal_form ''a-b_'')"
    "valid_base64 (normal_form ''YQ'')"
    by code_simp+
  with decode_rejects [of "''YQ=''"] decode_rejects [of "''a-b_''"] decode_rejects [of "''YQ''"]
  show ?thesis by auto
qed

end
